theory Spec2Isabelle
  imports Complex_Main "HOL-Library.Word" "HOL-Library.Log_Nat"
begin

unbundle bit_operations_syntax

section \<open>Python values used by the notebooks\<close>

text \<open>
  The notebooks are straight-line Python cells over OpenCV (\<open>cv2\<close>) and NumPy.
  An exception raised inside a cell is a value of \<open>py_error\<close>; a computation that
  can raise returns \<open>py_error + 'a\<close>, with \<open>Inl\<close> for the exception.
\<close>

datatype py_error =
  ValueError | IndexError | TypeError | OverflowError | cv2_error | KeyboardInterrupt

type_synonym uint8 = "8 word"

text \<open>
  A NumPy array of dtype \<open>uint8\<close>: its \<open>shape\<close> tuple and its buffer in row-major
  order, the channels of one pixel next to each other.  The arrays of the notebooks
  have shape \<open>(H, W, 3)\<close> (colour, printed as \<open>(486, 739, 3) (H, W, C)\<close>) or
  \<open>(H, W)\<close> (grayscale, printed as \<open>(486, 739) (H, W)\<close>).
\<close>

record ndarray =
  shape :: "nat list"
  buffer :: "uint8 list"

text \<open>A colour frame as \<open>cv2.imread\<close> and \<open>cap.read()\<close> deliver it: \<open>(H, W, 3)\<close>.\<close>

definition bgr_frame :: "ndarray \<Rightarrow> bool" where
  "bgr_frame a =
     (case shape a of
        [h, w, c] \<Rightarrow> c = 3 \<and> length (buffer a) = h * w * 3
      | _ \<Rightarrow> False)"

text \<open>A grayscale frame: \<open>(H, W)\<close>, one byte per pixel.\<close>

definition gray_array :: "ndarray \<Rightarrow> bool" where
  "gray_array a =
     (case shape a of
        [h, w] \<Rightarrow> length (buffer a) = h * w
      | _ \<Rightarrow> False)"

text \<open>
  \<open>h, w, channels = image.shape\<close> (the image-properties cell): unpacking a tuple
  of any other length raises \<open>ValueError\<close>.
\<close>

definition unpack_shape3 :: "ndarray \<Rightarrow> py_error + (nat \<times> nat \<times> nat)" where
  "unpack_shape3 a =
     (case shape a of
        [h, w, channels] \<Rightarrow> Inr (h, w, channels)
      | _ \<Rightarrow> Inl ValueError)"

text \<open>
  The channel-count attribute of a frame, read off the shape tuple: the third entry
  where the shape has a channel axis (what \<open>h, w, channels = image.shape\<close> binds to
  \<open>channels\<close>), and 0 where it has none (the \<open>(H, W)\<close> arrays).
\<close>

definition channel_count :: "ndarray \<Rightarrow> nat" where
  "channel_count a = (case shape a of [h, w, c] \<Rightarrow> c | _ \<Rightarrow> 0)"

text \<open>
  The number of channels of a frame, counted as the values that make up one pixel: the
  product of the axes after height and width.  An \<open>(H, W, 3)\<close> array has three (the
  record loop's "3 channels required"); an \<open>(H, W)\<close> array, which has no channel axis,
  has one.
\<close>

definition n_channels :: "ndarray \<Rightarrow> nat" where
  "n_channels a = prod_list (drop 2 (shape a))"

text \<open>
  \<open>original_height, original_width = img_color.shape[:2]\<close> (the resize cell): the
  slice keeps at most two entries, and unpacking fewer than two raises \<open>ValueError\<close>.
\<close>

definition height_width :: "ndarray \<Rightarrow> py_error + (nat \<times> nat)" where
  "height_width a =
     (case take 2 (shape a) of
        [h, w] \<Rightarrow> Inr (h, w)
      | _ \<Rightarrow> Inl ValueError)"

text \<open>
  NumPy's integer indexing.  An index \<open>i\<close> on an axis of length \<open>n\<close> is in range
  when \<open>-n \<le> i < n\<close>, a negative index counting from the end; any other index raises
  \<open>IndexError\<close>, and so do more indices than the array has axes.
\<close>

definition index_axis :: "nat \<Rightarrow> int \<Rightarrow> py_error + nat" where
  "index_axis n i =
     (if 0 \<le> i \<and> i < int n then Inr (nat i)
      else if - int n \<le> i \<and> i < 0 then Inr (nat (int n + i))
      else Inl IndexError)"

fun flat_index :: "nat list \<Rightarrow> int list \<Rightarrow> nat \<Rightarrow> py_error + nat" where
  "flat_index shp [] acc = Inr acc"
| "flat_index [] (i # idx) acc = Inl IndexError"
| "flat_index (n # shp) (i # idx) acc =
     (case index_axis n i of
        Inl e \<Rightarrow> Inl e
      | Inr k \<Rightarrow> flat_index shp idx (acc * n + k))"

text \<open>
  \<open>a[i1, ..., ik]\<close>: the sub-array at the given indices, of the remaining axes (a
  scalar has the empty shape).
\<close>

definition getitem :: "ndarray \<Rightarrow> int list \<Rightarrow> py_error + ndarray" where
  "getitem a idx =
     (case flat_index (shape a) idx 0 of
        Inl e \<Rightarrow> Inl e
      | Inr k \<Rightarrow>
          let rest = drop (length idx) (shape a); sz = prod_list rest
          in Inr \<lparr>shape = rest, buffer = take sz (drop (k * sz) (buffer a))\<rparr>)"

section \<open>The OpenCV calls\<close>

text \<open>
  OpenCV is a third-party library: the notebooks call it and contain none of its code.
  What the library computes per pixel (the luma of a colour pixel, its HSV value, the
  interpolation of a resize, the glyphs of \<open>putText\<close>) is left open: every definition
  below takes these functions as the parameter \<open>L\<close>, and every theorem holds for
  every \<open>L\<close>.
\<close>

record cv2 =
  gray_of_bgr :: "uint8 \<Rightarrow> uint8 \<Rightarrow> uint8 \<Rightarrow> uint8"
  hsv_of_bgr :: "uint8 \<Rightarrow> uint8 \<Rightarrow> uint8 \<Rightarrow> uint8 \<times> uint8 \<times> uint8"
  interpolate :: "ndarray \<Rightarrow> nat \<Rightarrow> nat \<Rightarrow> uint8 list"
  interpolate_cubic :: "ndarray \<Rightarrow> nat \<Rightarrow> nat \<Rightarrow> uint8 list"
  putText :: "string \<Rightarrow> ndarray \<Rightarrow> ndarray"

text \<open>The pixels of an interleaved 3-channel buffer, and the buffer of a pixel list.\<close>

fun pixels :: "uint8 list \<Rightarrow> (uint8 \<times> uint8 \<times> uint8) list" where
  "pixels (b # g # r # rest) = (b, g, r) # pixels rest"
| "pixels rest = []"

fun interleave :: "(uint8 \<times> uint8 \<times> uint8) list \<Rightarrow> uint8 list" where
  "interleave [] = []"
| "interleave ((c0, c1, c2) # ps) = c0 # c1 # c2 # interleave ps"

datatype conversion = COLOR_BGR2RGB | COLOR_BGR2GRAY | COLOR_BGR2HSV | COLOR_GRAY2BGR

text \<open>
  Modelled from the spec: \<open>cv2.cvtColor\<close>, the library's colour-space conversion,
  which the notebooks call with the four codes above; its code is not part of the
  repository.  A colour-to-colour conversion keeps the shape \<open>(H, W, 3)\<close>; the
  grayscale conversion yields the \<open>(H, W)\<close> array without a channel axis (the
  recorded output of the grayscale cell: \<open>(486, 739, 3)\<close> becomes \<open>(486, 739)\<close>);
  the conversion back yields \<open>(H, W, 3)\<close> with the gray value in each of the three
  channels.  A source array whose shape does not fit the code raises \<open>cv2.error\<close>,
  as in OpenCV.
\<close>

fun cvtColor :: "cv2 \<Rightarrow> ndarray \<Rightarrow> conversion \<Rightarrow> py_error + ndarray" where
  "cvtColor L src COLOR_BGR2RGB =
     (case shape src of
        [h, w, c] \<Rightarrow>
          if c = 3
          then Inr \<lparr>shape = [h, w, 3],
                    buffer = interleave (map (\<lambda>(b, g, r). (r, g, b)) (pixels (buffer src)))\<rparr>
          else Inl cv2_error
      | _ \<Rightarrow> Inl cv2_error)"
| "cvtColor L src COLOR_BGR2HSV =
     (case shape src of
        [h, w, c] \<Rightarrow>
          if c = 3
          then Inr \<lparr>shape = [h, w, 3],
                    buffer = interleave (map (\<lambda>(b, g, r). hsv_of_bgr L b g r) (pixels (buffer src)))\<rparr>
          else Inl cv2_error
      | _ \<Rightarrow> Inl cv2_error)"
| "cvtColor L src COLOR_BGR2GRAY =
     (case shape src of
        [h, w, c] \<Rightarrow>
          if c = 3
          then Inr \<lparr>shape = [h, w],
                    buffer = map (\<lambda>(b, g, r). gray_of_bgr L b g r) (pixels (buffer src))\<rparr>
          else Inl cv2_error
      | _ \<Rightarrow> Inl cv2_error)"
| "cvtColor L src COLOR_GRAY2BGR =
     (case shape src of
        [h, w] \<Rightarrow>
          Inr \<lparr>shape = [h, w, 3],
              buffer = interleave (map (\<lambda>v. (v, v, v)) (buffer src))\<rparr>
      | _ \<Rightarrow> Inl cv2_error)"

text \<open>
  Modelled from the spec: \<open>cv2.resize(src, (width, height))\<close>, the library's resize
  to an explicit target size; its code is not part of the repository.  The result has
  the requested height and width and the channel axis of the source; its pixel values
  are the library's interpolation.  The spec names no result for a target size with a
  side that is not positive, the size of no frame: OpenCV raises \<open>cv2.error\<close> for
  it, and so does the model.
\<close>

definition resize :: "cv2 \<Rightarrow> ndarray \<Rightarrow> int \<times> int \<Rightarrow> py_error + ndarray" where
  "resize L src dsize =
     (case dsize of (width, height) \<Rightarrow>
        if 0 < width \<and> 0 < height
        then (case shape src of
                h # w # channels \<Rightarrow>
                  Inr \<lparr>shape = nat height # nat width # channels,
                      buffer = interpolate L src (nat height) (nat width)\<rparr>
              | _ \<Rightarrow> Inl cv2_error)
        else Inl cv2_error)"

section \<open>Python floats\<close>

text \<open>
  A Python \<open>float\<close> is an IEEE 754 binary64 number.  A finite one is given by its exact
  value, a rational; \<open>Infinite\<close> stands for an overflow.  NaN and an infinite scale
  factor are not modelled.
\<close>

datatype float = Finite rat | Infinite

text \<open>Rounding to the nearest integer, a tie to the even one.\<close>

definition round_half_even :: "rat \<Rightarrow> int" where
  "round_half_even q =
     (let n = \<lfloor>q\<rfloor>; r = q - of_int n
      in if r < 1 / 2 then n else if 1 / 2 < r then n + 1 else if even n then n else n + 1)"

text \<open>For \<open>q > 0\<close>, the exponent \<open>e\<close> with \<open>2 ^ e \<le> q < 2 ^ (e + 1)\<close>.\<close>

definition floor_log2 :: "rat \<Rightarrow> int" where
  "floor_log2 q =
     (case quotient_of q of
        (a, b) \<Rightarrow> let d = bitlen a - bitlen b in if 2 powi d \<le> q then d else d - 1)"

text \<open>
  The binary64 number nearest to a rational, a tie to the even significand: 53 bits of
  significand, the smallest exponent -1022 (below it the spacing stays \<open>2 ^ -1074\<close>),
  and overflow from \<open>2 ^ 1024\<close> on.
\<close>

definition round_binary64 :: "rat \<Rightarrow> float" where
  "round_binary64 q =
     (if q = 0 then Finite 0
      else let e = max (floor_log2 \<bar>q\<bar>) (- 1022);
               ulp = 2 powi (e - 52);
               r = of_int (round_half_even (q / ulp)) * ulp
           in if r = 0 then Finite 0
              else if 1024 \<le> floor_log2 \<bar>r\<bar> then Infinite
              else Finite r)"

text \<open>
  \<open>n * x\<close> for an \<open>int\<close> and a \<open>float\<close>: the integer is converted to a float (an
  \<open>OverflowError\<close> when it is too large), and the product is rounded.
\<close>

definition int_mul_float :: "int \<Rightarrow> rat \<Rightarrow> py_error + float" where
  "int_mul_float n x =
     (case round_binary64 (of_int n) of
        Infinite \<Rightarrow> Inl OverflowError
      | Finite m \<Rightarrow> Inr (round_binary64 (m * x)))"

text \<open>
  \<open>int(x)\<close> on a float truncates towards zero; on an infinite one it raises
  \<open>OverflowError\<close>.
\<close>

definition py_int :: "float \<Rightarrow> py_error + int" where
  "py_int x =
     (case x of
        Finite q \<Rightarrow> Inr (if q < 0 then - \<lfloor>- q\<rfloor> else \<lfloor>q\<rfloor>)
      | Infinite \<Rightarrow> Inl OverflowError)"

section \<open>The resize cell\<close>

text \<open>Method 1 of the cell: \<open>resized_fixed = cv2.resize(img_color, (300, 300))\<close>.\<close>

definition resized_fixed :: "cv2 \<Rightarrow> ndarray \<Rightarrow> py_error + ndarray" where
  "resized_fixed L img_color = resize L img_color (300, 300)"

text \<open>
  Method 2 of the cell, the scale factor a parameter (the cell sets it to 0.5), a finite
  float:
  \<^verbatim>\<open>
  original_height, original_width = img_color.shape[:2]
  new_width      = int(original_width * scale_factor)
  new_height     = int(original_height * scale_factor)
  resized_scaled = cv2.resize(img_color, (new_width, new_height))
  \<close>
\<close>

definition resized_scaled :: "cv2 \<Rightarrow> ndarray \<Rightarrow> rat \<Rightarrow> py_error + ndarray" where
  "resized_scaled L img_color scale_factor =
     (case height_width img_color of
        Inl e \<Rightarrow> Inl e
      | Inr (original_height, original_width) \<Rightarrow>
          (case int_mul_float (int original_width) scale_factor of
             Inl e \<Rightarrow> Inl e
           | Inr pw \<Rightarrow>
               (case py_int pw of
                  Inl e \<Rightarrow> Inl e
                | Inr new_width \<Rightarrow>
                    (case int_mul_float (int original_height) scale_factor of
                       Inl e \<Rightarrow> Inl e
                     | Inr ph \<Rightarrow>
                         (case py_int ph of
                            Inl e \<Rightarrow> Inl e
                          | Inr new_height \<Rightarrow>
                              resize L img_color (new_width, new_height))))))"

text \<open>
  Method 3 of the cell, the two factors parameters (the cell sets both to 0.75):
  \<^verbatim>\<open>
  resized_fx = cv2.resize(img_color, None, fx=0.75, fy=0.75, interpolation=cv2.INTER_CUBIC)
  \<close>
  Here the library computes the target size; its code is not part of the repository.
  The definition follows OpenCV's documented rule
  \<open>dsize = Size(round(fx * src.cols), round(fy * src.rows))\<close>: the products are float
  products, rounded to the nearest integer, a tie to the even one; both factors must be
  positive and both sides positive and within a C \<open>int\<close>, or the call raises
  \<open>cv2.error\<close>.  The size the cell printed, 554 x 364 for the 739 x 486 image, is
  what the rule gives (554.25 and 364.5).
\<close>

definition resized_fx :: "cv2 \<Rightarrow> ndarray \<Rightarrow> rat \<Rightarrow> rat \<Rightarrow> py_error + ndarray" where
  "resized_fx L img_color fx fy =
     (case shape img_color of
        h # w # channels \<Rightarrow>
          if 0 < fx \<and> 0 < fy
          then (case (int_mul_float (int w) fx, int_mul_float (int h) fy) of
                  (Inr (Finite pw), Inr (Finite ph)) \<Rightarrow>
                    let width = round_half_even pw; height = round_half_even ph
                    in if 0 < width \<and> width < 2 ^ 31 \<and> 0 < height \<and> height < 2 ^ 31
                       then Inr \<lparr>shape = nat height # nat width # channels,
                                 buffer = interpolate_cubic L img_color (nat height)
                                            (nat width)\<rparr>
                       else Inl cv2_error
                | _ \<Rightarrow> Inl cv2_error)
          else Inl cv2_error
      | _ \<Rightarrow> Inl cv2_error)"

section \<open>The pixel-access cell\<close>

text \<open>\<open>img_color.shape[0]\<close>: an index past the end of the tuple raises \<open>IndexError\<close>.\<close>

definition shape_at :: "ndarray \<Rightarrow> nat \<Rightarrow> py_error + nat" where
  "shape_at a i = (if i < length (shape a) then Inr (shape a ! i) else Inl IndexError)"

text \<open>
  \<open>b, g, r = pixel\<close>: iterating an array yields its sub-arrays along the first axis;
  a scalar cannot be unpacked (\<open>TypeError\<close>), and a first axis of any length but 3
  raises \<open>ValueError\<close>.
\<close>

definition unpack3 :: "ndarray \<Rightarrow> py_error + (ndarray \<times> ndarray \<times> ndarray)" where
  "unpack3 pixel =
     (case shape pixel of
        [] \<Rightarrow> Inl TypeError
      | n # rest \<Rightarrow>
          if n = 3
          then (case (getitem pixel [0], getitem pixel [1], getitem pixel [2]) of
                  (Inr b, Inr g, Inr r) \<Rightarrow> Inr (b, g, r)
                | _ \<Rightarrow> Inl IndexError)
          else Inl ValueError)"

text \<open>
  What the cell prints: the pixel with its three values and the three channel-wise
  reads, or that the coordinates are out of bounds, or that there is no image.
\<close>

datatype report =
    Pixel_values int int ndarray ndarray ndarray ndarray ndarray ndarray ndarray
  | Out_of_bounds int int
  | No_image

text \<open>
  The cell, the coordinate pair a parameter (the cell sets \<open>y, x = 100, 100\<close>):
  \<^verbatim>\<open>
  if img_color is not None:
      if y < img_color.shape[0] and x < img_color.shape[1]:
          pixel = img_color[y, x]
          b, g, r = pixel
          ... img_color[y, x, 0] ... img_color[y, x, 1] ... img_color[y, x, 2]
      else:
          print("Coordinates (x, y) are out of bounds")
  else:
      print("No color image available for pixel access")
  \<close>
  \<open>and\<close> evaluates its right operand only when the left one holds.
\<close>

definition read_pixel :: "ndarray \<Rightarrow> int \<Rightarrow> int \<Rightarrow> py_error + report" where
  "read_pixel img_color y x =
     (case getitem img_color [y, x] of
        Inl e \<Rightarrow> Inl e
      | Inr pixel \<Rightarrow>
          (case unpack3 pixel of
             Inl e \<Rightarrow> Inl e
           | Inr (b, g, r) \<Rightarrow>
               (case (getitem img_color [y, x, 0], getitem img_color [y, x, 1],
                      getitem img_color [y, x, 2]) of
                  (Inr c0, Inr c1, Inr c2) \<Rightarrow> Inr (Pixel_values x y pixel b g r c0 c1 c2)
                | _ \<Rightarrow> Inl IndexError)))"

definition pixel_access :: "ndarray option \<Rightarrow> int \<Rightarrow> int \<Rightarrow> py_error + report" where
  "pixel_access img_color y x =
     (case img_color of
        None \<Rightarrow> Inr No_image
      | Some img \<Rightarrow>
          (case shape_at img 0 of
             Inl e \<Rightarrow> Inl e
           | Inr h \<Rightarrow>
               if y < int h
               then (case shape_at img 1 of
                       Inl e \<Rightarrow> Inl e
                     | Inr w \<Rightarrow>
                         if x < int w then read_pixel img y x
                         else Inr (Out_of_bounds x y))
               else Inr (Out_of_bounds x y)))"

section \<open>The capture loops\<close>

text \<open>
  What a cell does to the outside, in order: a window update (\<open>cv2.imshow\<close>), a frame
  appended to the video file (\<open>out.write\<close>), the loops' \<open>print\<close> calls, and the
  releases.  The banners printed before a loop starts and the camera properties read
  and set there are left out.
\<close>

datatype message =
    Failed_to_capture_frame
  | Failed_to_capture_image
  | Cant_receive_frame
  | Frames_captured nat
  | Recording_stopped_by_user
  | Recording_interrupted_by_user
  | Total_frames_captured nat

datatype event =
    Imshow string ndarray
  | Write ndarray
  | Print message
  | Release_cap
  | Release_out
  | DestroyAllWindows

text \<open>
  What the outside does in one iteration of a loop: the camera is no longer open; the
  pull fails (\<open>ret\<close> is false); the pull delivers a frame and \<open>cv2.waitKey(1)\<close>
  returns a key code (-1 for no key); or Ctrl-C raises \<open>KeyboardInterrupt\<close>, either
  before a frame was delivered, or after it was and the first \<open>k\<close> of the iteration's
  effects were done.  A run is given by the list of what happened in its iterations so
  far.
\<close>

datatype tick =
    Closed
  | Read_fails
  | Frame ndarray int
  | Interrupt_before_frame
  | Interrupt_after ndarray nat

datatype control = Continue | Break | Raise py_error

text \<open>
  The outcome of a cell that has come to its end: its effects, and the exception that
  left it, if one did.
\<close>

record run =
  events :: "event list"
  raised :: "py_error option"

text \<open>\<open>ord('q')\<close>.\<close>

definition ord_q :: int where
  "ord_q = 113"

subsection \<open>The camera-feed loop\<close>

text \<open>
  \<^verbatim>\<open>
  while True:
      ret, frame = cap.read()
      if ret:
          cv2.imshow('Camera Feed - HD Resolution', frame)
          if cv2.waitKey(1) & 0xFF == ord('q'):
              break
      else:
          print("Failed to capture frame")
          break
  cap.release()
  cv2.destroyAllWindows()
  \<close>
  The loop does not ask \<open>cap.isOpened()\<close>; a pull from a closed camera fails.
\<close>

fun feed_iteration :: "tick \<Rightarrow> control \<times> event list" where
  "feed_iteration Closed = (Break, [Print Failed_to_capture_frame])"
| "feed_iteration Read_fails = (Break, [Print Failed_to_capture_frame])"
| "feed_iteration (Frame frame key) =
     (if key AND 255 = ord_q
      then (Break, [Imshow ''Camera Feed - HD Resolution'' frame])
      else (Continue, [Imshow ''Camera Feed - HD Resolution'' frame]))"
| "feed_iteration Interrupt_before_frame = (Raise KeyboardInterrupt, [])"
| "feed_iteration (Interrupt_after frame k) =
     (Raise KeyboardInterrupt, take k [Imshow ''Camera Feed - HD Resolution'' frame])"

text \<open>
  The loop over the iterations seen so far; \<open>Continue\<close> as the result says that the
  loop has not come to an end in them.
\<close>

fun feed_loop :: "tick list \<Rightarrow> control \<times> event list" where
  "feed_loop [] = (Continue, [])"
| "feed_loop (t # ts) =
     (case feed_iteration t of
        (Continue, evs) \<Rightarrow> (case feed_loop ts of (c, evs') \<Rightarrow> (c, evs @ evs'))
      | (c, evs) \<Rightarrow> (c, evs))"

text \<open>
  The cell from \<open>if cap.isOpened():\<close> on.  No handler stands around the loop: an
  exception leaves the cell at once.  \<open>None\<close>: the loop is still running.
\<close>

definition camera_feed_cell :: "bool \<Rightarrow> tick list \<Rightarrow> run option" where
  "camera_feed_cell camera_opened ticks =
     (if camera_opened
      then (case feed_loop ticks of
              (Continue, evs) \<Rightarrow> None
            | (Break, evs) \<Rightarrow>
                Some \<lparr>events = evs @ [Release_cap, DestroyAllWindows], raised = None\<rparr>
            | (Raise e, evs) \<Rightarrow> Some \<lparr>events = evs, raised = Some e\<rparr>)
      else Some \<lparr>events = [], raised = None\<rparr>)"

subsection \<open>The date-and-time overlay loop\<close>

text \<open>
  \<^verbatim>\<open>
  while(cap.isOpened()):
      ret, frame = cap.read()
      if ret == True:
          frame = cv2.putText(frame, text, ...)
          frame = cv2.putText(frame, datetime_str, ...)
          cv2.imshow('Camera Frame', frame)
          if cv2.waitKey(1) & 0xFF == ord('q'):
              break
      else:
          print("Failed to capture image from camera")
          break
  cap.release()
  cv2.destroyAllWindows()
  \<close>
  The two texts (the camera's size and the time) come from outside; \<open>putText L\<close> takes
  a label in their place.
\<close>

definition overlay_frame :: "cv2 \<Rightarrow> ndarray \<Rightarrow> ndarray" where
  "overlay_frame L frame = putText L ''datetime_str'' (putText L ''text'' frame)"

fun overlay_iteration :: "cv2 \<Rightarrow> tick \<Rightarrow> control \<times> event list" where
  "overlay_iteration L Closed = (Break, [])"
| "overlay_iteration L Read_fails = (Break, [Print Failed_to_capture_image])"
| "overlay_iteration L (Frame frame key) =
     (if key AND 255 = ord_q
      then (Break, [Imshow ''Camera Frame'' (overlay_frame L frame)])
      else (Continue, [Imshow ''Camera Frame'' (overlay_frame L frame)]))"
| "overlay_iteration L Interrupt_before_frame = (Raise KeyboardInterrupt, [])"
| "overlay_iteration L (Interrupt_after frame k) =
     (Raise KeyboardInterrupt, take k [Imshow ''Camera Frame'' (overlay_frame L frame)])"

fun overlay_loop :: "cv2 \<Rightarrow> tick list \<Rightarrow> control \<times> event list" where
  "overlay_loop L [] = (Continue, [])"
| "overlay_loop L (t # ts) =
     (case overlay_iteration L t of
        (Continue, evs) \<Rightarrow> (case overlay_loop L ts of (c, evs') \<Rightarrow> (c, evs @ evs'))
      | (c, evs) \<Rightarrow> (c, evs))"

definition overlay_cell :: "cv2 \<Rightarrow> tick list \<Rightarrow> run option" where
  "overlay_cell L ticks =
     (case overlay_loop L ticks of
        (Continue, evs) \<Rightarrow> None
      | (Break, evs) \<Rightarrow>
          Some \<lparr>events = evs @ [Release_cap, DestroyAllWindows], raised = None\<rparr>
      | (Raise e, evs) \<Rightarrow> Some \<lparr>events = evs, raised = Some e\<rparr>)"

subsection \<open>The record loop\<close>

text \<open>
  \<^verbatim>\<open>
  frame_count = 0
  try:
      while cap.isOpened():
          ret, frame = cap.read()
          if not ret:
              print("Can't receive frame. Ending capture...")
              break
          frame_count += 1
          gray_frame = cv2.cvtColor(frame, cv2.COLOR_BGR2GRAY)
          gray_bgr   = cv2.cvtColor(gray_frame, cv2.COLOR_GRAY2BGR)
          out.write(gray_bgr)
          cv2.imshow("Live Feed (Grayscale)", gray_frame)
          cv2.imshow("Original Feed", frame)
          if frame_count % 30 == 0:
              print(f"Frames captured: {frame_count}")
          if cv2.waitKey(1) & 0xFF == 27:
              print("Recording stopped by user")
              break
  except KeyboardInterrupt:
      print("Recording interrupted by user")
  cap.release()
  out.release()
  cv2.destroyAllWindows()
  print(f"Total frames captured: {frame_count}")
  \<close>
  The effects of one iteration on a frame, \<open>frame_count\<close> already counted up; a
  conversion that raises does so before any of them.
\<close>

definition record_effects :: "cv2 \<Rightarrow> nat \<Rightarrow> ndarray \<Rightarrow> py_error + event list" where
  "record_effects L frame_count frame =
     (case cvtColor L frame COLOR_BGR2GRAY of
        Inl e \<Rightarrow> Inl e
      | Inr gray_frame \<Rightarrow>
          (case cvtColor L gray_frame COLOR_GRAY2BGR of
             Inl e \<Rightarrow> Inl e
           | Inr gray_bgr \<Rightarrow>
               Inr ([Write gray_bgr,
                     Imshow ''Live Feed (Grayscale)'' gray_frame,
                     Imshow ''Original Feed'' frame]
                    @ (if frame_count mod 30 = 0 then [Print (Frames_captured frame_count)]
                       else []))))"

text \<open>
  One iteration, from \<open>frame_count\<close> to the control flow, the new \<open>frame_count\<close>
  and the effects.  An interrupt after the frame was delivered finds \<open>frame_count\<close>
  counted up; with \<open>k = 0\<close> it comes before the first effect, so before a conversion
  could have raised.
\<close>

fun record_iteration :: "cv2 \<Rightarrow> nat \<Rightarrow> tick \<Rightarrow> control \<times> nat \<times> event list" where
  "record_iteration L frame_count Closed = (Break, frame_count, [])"
| "record_iteration L frame_count Read_fails =
     (Break, frame_count, [Print Cant_receive_frame])"
| "record_iteration L frame_count (Frame frame key) =
     (case record_effects L (frame_count + 1) frame of
        Inl e \<Rightarrow> (Raise e, frame_count + 1, [])
      | Inr evs \<Rightarrow>
          if key AND 255 = 27
          then (Break, frame_count + 1, evs @ [Print Recording_stopped_by_user])
          else (Continue, frame_count + 1, evs))"
| "record_iteration L frame_count Interrupt_before_frame =
     (Raise KeyboardInterrupt, frame_count, [])"
| "record_iteration L frame_count (Interrupt_after frame k) =
     (if k = 0 then (Raise KeyboardInterrupt, frame_count + 1, [])
      else (case record_effects L (frame_count + 1) frame of
              Inl e \<Rightarrow> (Raise e, frame_count + 1, [])
            | Inr evs \<Rightarrow> (Raise KeyboardInterrupt, frame_count + 1, take k evs)))"

fun record_loop :: "cv2 \<Rightarrow> nat \<Rightarrow> tick list \<Rightarrow> control \<times> nat \<times> event list" where
  "record_loop L frame_count [] = (Continue, frame_count, [])"
| "record_loop L frame_count (t # ts) =
     (case record_iteration L frame_count t of
        (Continue, n, evs) \<Rightarrow>
          (case record_loop L n ts of (c, n', evs') \<Rightarrow> (c, n', evs @ evs'))
      | (c, n, evs) \<Rightarrow> (c, n, evs))"

text \<open>The cleanup after the \<open>try\<close> statement.\<close>

definition cleanup :: "nat \<Rightarrow> event list" where
  "cleanup frame_count =
     [Release_cap, Release_out, DestroyAllWindows, Print (Total_frames_captured frame_count)]"

text \<open>
  The cell from \<open>if not cap.isOpened():\<close> on.  The handler catches
  \<open>KeyboardInterrupt\<close> and nothing else; any other exception leaves the cell before
  the cleanup.  \<open>None\<close>: the loop is still running.
\<close>

definition record_cell :: "cv2 \<Rightarrow> bool \<Rightarrow> tick list \<Rightarrow> run option" where
  "record_cell L camera_opened ticks =
     (if \<not> camera_opened then Some \<lparr>events = [], raised = None\<rparr>
      else (case record_loop L 0 ticks of
              (Continue, n, evs) \<Rightarrow> None
            | (Break, n, evs) \<Rightarrow> Some \<lparr>events = evs @ cleanup n, raised = None\<rparr>
            | (Raise e, n, evs) \<Rightarrow>
                if e = KeyboardInterrupt
                then Some \<lparr>events = evs @ [Print Recording_interrupted_by_user] @ cleanup n,
                           raised = None\<rparr>
                else Some \<lparr>events = evs, raised = Some e\<rparr>))"

text \<open>Counting the effects of a list of events.\<close>

fun is_display :: "event \<Rightarrow> bool" where
  "is_display (Imshow win frame) = True"
| "is_display e = False"

fun is_append :: "event \<Rightarrow> bool" where
  "is_append (Write frame) = True"
| "is_append e = False"

fun shown_in :: "string \<Rightarrow> event \<Rightarrow> bool" where
  "shown_in win (Imshow win' frame) = (win' = win)"
| "shown_in win e = False"

definition displays :: "event list \<Rightarrow> nat" where
  "displays evs = length (filter is_display evs)"

definition appends :: "event list \<Rightarrow> nat" where
  "appends evs = length (filter is_append evs)"

text \<open>
  A tick after which a loop with the given stop code goes on: a colour frame and a key
  code that is not the stop code.
\<close>

fun continuing :: "int \<Rightarrow> tick \<Rightarrow> bool" where
  "continuing stop (Frame frame key) = (bgr_frame frame \<and> key AND 255 \<noteq> stop)"
| "continuing stop t = False"

text \<open>A tick whose frame, if it has one, is a colour frame, as a camera delivers it.\<close>

fun colour_tick :: "tick \<Rightarrow> bool" where
  "colour_tick (Frame frame key) = bgr_frame frame"
| "colour_tick (Interrupt_after frame k) = bgr_frame frame"
| "colour_tick t = True"

section \<open>Concrete values for evaluation\<close>

text \<open>
  One instance of the library's pixel functions and two small frames, used to run the
  definitions on concrete inputs.
\<close>

definition sample_cv2 :: cv2 where
  "sample_cv2 =
     \<lparr>gray_of_bgr = (\<lambda>b g r. g),
      hsv_of_bgr = (\<lambda>b g r. (r, g, b)),
      interpolate = (\<lambda>src h w. replicate (h * w * 3) 0),
      interpolate_cubic = (\<lambda>src h w. replicate (h * w * 3) 1),
      putText = (\<lambda>text src. src)\<rparr>"

definition frame_1x2 :: ndarray where
  "frame_1x2 = \<lparr>shape = [1, 2, 3], buffer = [10, 20, 30, 40, 50, 60]\<rparr>"

definition frame_2x2 :: ndarray where
  "frame_2x2 =
     \<lparr>shape = [2, 2, 3], buffer = [10, 20, 30, 40, 50, 60, 70, 80, 90, 100, 110, 120]\<rparr>"

definition gray_2x2 :: ndarray where
  "gray_2x2 = \<lparr>shape = [2, 2], buffer = [20, 50, 80, 110]\<rparr>"

text \<open>A black frame of the size of the notebook's image, and one of height 2, width 10.\<close>

definition frame_486x739 :: ndarray where
  "frame_486x739 = \<lparr>shape = [486, 739, 3], buffer = replicate (486 * 739 * 3) 0\<rparr>"

definition frame_2x10 :: ndarray where
  "frame_2x10 = \<lparr>shape = [2, 10, 3], buffer = replicate (2 * 10 * 3) 0\<rparr>"

text \<open>The float that Python reads from \<open>0.7\<close>: the binary64 number nearest to 7/10.\<close>

definition float_0_7 :: rat where
  "float_0_7 = 3152519739159347 / 4503599627370496"

section \<open>Shapes of converted frames\<close>

lemma length_pixels: "length (pixels xs) = length xs div 3"
  by (induction xs rule: pixels.induct) simp_all

lemma length_interleave: "length (interleave ps) = 3 * length ps"
  by (induction ps rule: interleave.induct) simp_all

text \<open>
  C9: a frame produced by the grayscale conversion has no channel axis: its shape is
  \<open>(H, W)\<close> for the source's \<open>(H, W, 3)\<close>, so its channel count is 0, and its
  buffer holds one byte per pixel.
\<close>

theorem grayscale_has_no_channel_axis:
  assumes "bgr_frame src" and "shape src = [h, w, 3]"
  shows "\<exists>g. cvtColor L src COLOR_BGR2GRAY = Inr g
           \<and> shape g = [h, w] \<and> channel_count g = 0 \<and> gray_array g"
  using assms
  by (auto simp: bgr_frame_def gray_array_def channel_count_def length_pixels)

theorem grayscale_has_no_channel_axis_witness:
  "bgr_frame frame_2x2 \<and> shape frame_2x2 = [2, 2, 3]
   \<and> cvtColor sample_cv2 frame_2x2 COLOR_BGR2GRAY
       = Inr \<lparr>shape = [2, 2], buffer = [20, 50, 80, 110]\<rparr>
   \<and> channel_count \<lparr>shape = [2, 2], buffer = [20, 50, 80, 110]\<rparr> = 0"
  using grayscale_has_no_channel_axis [of frame_2x2 2 2 sample_cv2]
  by (simp add: bgr_frame_def frame_2x2_def sample_cv2_def channel_count_def)

text \<open>
  C1: for a colour frame of shape \<open>(H, W, 3)\<close>, as a successful pull delivers it, the
  frame has three channels when no transform is applied and after a colour transform
  (BGR to RGB, BGR to HSV, and gray back to BGR), and one channel after the grayscale
  transform, whose result holds one value for each pixel.  Every one of these transforms
  keeps the height and the width, read as \<open>shape[:2]\<close>.
\<close>

theorem transformed_frame_channels:
  assumes "bgr_frame src" and "shape src = [h, w, 3]"
  shows "n_channels src = 3 \<and> height_width src = Inr (h, w)
    \<and> (\<exists>d. cvtColor L src COLOR_BGR2RGB = Inr d
          \<and> n_channels d = 3 \<and> height_width d = Inr (h, w))
    \<and> (\<exists>d. cvtColor L src COLOR_BGR2HSV = Inr d
          \<and> n_channels d = 3 \<and> height_width d = Inr (h, w))
    \<and> (\<exists>g. cvtColor L src COLOR_BGR2GRAY = Inr g
          \<and> n_channels g = 1 \<and> height_width g = Inr (h, w)
          \<and> length (buffer g) = h * w * n_channels g
          \<and> (\<exists>d. cvtColor L g COLOR_GRAY2BGR = Inr d
                \<and> n_channels d = 3 \<and> height_width d = Inr (h, w)))"
  using assms
  by (simp add: n_channels_def height_width_def bgr_frame_def length_pixels)

text \<open>The 486 x 739 x 3 image: its grayscale frame has height 486 and width 739.\<close>

theorem transformed_frame_channels_witness:
  "bgr_frame frame_486x739 \<and> shape frame_486x739 = [486, 739, 3]
   \<and> (\<exists>g. cvtColor sample_cv2 frame_486x739 COLOR_BGR2GRAY = Inr g
         \<and> n_channels g = 1 \<and> height_width g = Inr (486, 739))"
proof -
  have a: "bgr_frame frame_486x739"
    by (simp add: bgr_frame_def frame_486x739_def)
  have b: "shape frame_486x739 = [486, 739, 3]"
    by (simp add: frame_486x739_def)
  from transformed_frame_channels [OF a b, of sample_cv2] a b show ?thesis
    by blast
qed

text \<open>
  The shapes the notebook's cells printed: \<open>(486, 739, 3)\<close> and \<open>(486, 739)\<close> in
  the grayscale cell, \<open>(776, 1152, 3)\<close> twice in the HSV cell.
\<close>

lemma recorded_grayscale_shape:
  assumes "shape img_cv = [486, 739, 3]"
  shows "\<exists>img_gray. cvtColor L img_cv COLOR_BGR2GRAY = Inr img_gray
           \<and> shape img_gray = [486, 739]"
  using assms by simp

lemma recorded_hsv_shape:
  assumes "shape img_bgr = [776, 1152, 3]"
  shows "\<exists>img_hsv. cvtColor L img_bgr COLOR_BGR2HSV = Inr img_hsv
           \<and> shape img_hsv = [776, 1152, 3]"
  using assms by simp

section \<open>The grayscale round trip of the record loop\<close>

lemma take_drop_gray_bgr:
  "k < length gs \<Longrightarrow> c < 3 \<Longrightarrow>
   take (Suc 0) (drop (k * 3 + c) (interleave (map (\<lambda>v. (v, v, v)) gs))) = [gs ! k]"
proof (induction gs arbitrary: k)
  case Nil
  then show ?case by simp
next
  case (Cons g gs)
  show ?case
  proof (cases k)
    case 0
    from \<open>c < 3\<close> have "c = 0 \<or> c = 1 \<or> c = 2" by auto
    with 0 show ?thesis by auto
  next
    case (Suc j)
    with Cons.prems have "j < length gs" by simp
    from Cons.IH [OF this \<open>c < 3\<close>] Suc show ?thesis
      by (simp add: numeral_3_eq_3)
  qed
qed

lemma flat_offset_bound:
  fixes y x h w :: nat
  assumes "y < h" and "x < w"
  shows "y * w + x < h * w"
proof -
  have "y * w + x < y * w + w" using assms by simp
  also have "\<dots> = Suc y * w" by simp
  also have "\<dots> \<le> h * w" using assms by (intro mult_le_mono1) simp
  finally show ?thesis .
qed

text \<open>
  C2: the record loop converts the captured colour frame to grayscale and the result
  back to three channels.  Both conversions succeed, the result has the height and the
  width of the captured frame and three channels, and at every pixel \<open>(y, x)\<close> the
  three channel values \<open>d[y, x, 0]\<close>, \<open>d[y, x, 1]\<close>, \<open>d[y, x, 2]\<close> are the same number,
  the gray value \<open>g[y, x]\<close>.
\<close>

theorem gray_roundtrip_channels_equal:
  assumes "bgr_frame src" and "shape src = [h, w, 3]"
  shows "\<exists>g d. cvtColor L src COLOR_BGR2GRAY = Inr g
           \<and> cvtColor L g COLOR_GRAY2BGR = Inr d
           \<and> shape g = [h, w] \<and> shape d = [h, w, 3] \<and> bgr_frame d
           \<and> (\<forall>y x. y < h \<longrightarrow> x < w \<longrightarrow>
                 (\<exists>v. getitem g [int y, int x] = Inr v
                    \<and> getitem d [int y, int x, 0] = Inr v
                    \<and> getitem d [int y, int x, 1] = Inr v
                    \<and> getitem d [int y, int x, 2] = Inr v))"
proof -
  define gs where "gs = map (\<lambda>(b, g, r). gray_of_bgr L b g r) (pixels (buffer src))"
  define g where "g = \<lparr>shape = [h, w], buffer = gs\<rparr>"
  define d where "d = \<lparr>shape = [h, w, 3], buffer = interleave (map (\<lambda>v. (v, v, v)) gs)\<rparr>"
  from assms have len: "length gs = h * w"
    by (simp add: bgr_frame_def gs_def length_pixels)
  have g: "cvtColor L src COLOR_BGR2GRAY = Inr g"
    using assms by (simp add: g_def gs_def)
  have d: "cvtColor L g COLOR_GRAY2BGR = Inr d"
    by (simp add: g_def d_def)
  have wf: "bgr_frame d"
    by (simp add: bgr_frame_def d_def length_interleave len)
  have px: "\<exists>v. getitem g [int y, int x] = Inr v
              \<and> getitem d [int y, int x, 0] = Inr v
              \<and> getitem d [int y, int x, 1] = Inr v
              \<and> getitem d [int y, int x, 2] = Inr v"
    if "y < h" and "x < w" for y x
  proof -
    from that have k: "y * w + x < length gs"
      by (simp add: len flat_offset_bound)
    have c: "getitem d [int y, int x, int c] = Inr \<lparr>shape = [], buffer = [gs ! (y * w + x)]\<rparr>"
      if "c < 3" for c
      using that \<open>y < h\<close> \<open>x < w\<close> take_drop_gray_bgr [OF k that]
      by (simp add: getitem_def d_def index_axis_def)
    have s: "getitem g [int y, int x] = Inr \<lparr>shape = [], buffer = [gs ! (y * w + x)]\<rparr>"
      using \<open>y < h\<close> \<open>x < w\<close> k
      by (simp add: getitem_def g_def index_axis_def take_Suc_conv_app_nth)
    from c [of 0] c [of 1] c [of 2] s show ?thesis by simp
  qed
  from g d wf px show ?thesis
    by (intro exI [of _ g] exI [of _ d]) (simp add: g_def d_def)
qed

theorem gray_roundtrip_channels_equal_witness:
  "bgr_frame frame_2x2 \<and> shape frame_2x2 = [2, 2, 3]
   \<and> cvtColor sample_cv2 frame_2x2 COLOR_BGR2GRAY = Inr gray_2x2
   \<and> cvtColor sample_cv2 gray_2x2 COLOR_GRAY2BGR
       = Inr \<lparr>shape = [2, 2, 3],
              buffer = [20, 20, 20, 50, 50, 50, 80, 80, 80, 110, 110, 110]\<rparr>"
  using gray_roundtrip_channels_equal [of frame_2x2 2 2 sample_cv2]
  by (simp add: bgr_frame_def frame_2x2_def gray_2x2_def sample_cv2_def)

section \<open>Resizing\<close>

lemma floor_rat_numeral [simp]:
  "\<lfloor>numeral a / numeral b :: rat\<rfloor> = numeral a div numeral b"
  using floor_divide_of_int_eq [of "numeral a" "numeral b", where ?'a = rat] by simp

lemma floor_rat_minus_numeral [simp]:
  "\<lfloor>- (numeral a / numeral b) :: rat\<rfloor> = - numeral a div numeral b"
  using floor_divide_of_int_eq [of "- numeral a" "numeral b", where ?'a = rat] by simp

lemma floor_rat_one_numeral [simp]:
  "\<lfloor>1 / numeral b :: rat\<rfloor> = 1 div numeral b"
  using floor_divide_of_int_eq [of 1 "numeral b", where ?'a = rat] by simp

text \<open>
  C6: resizing a frame to an explicit target dimension (a width and a height, both
  positive) yields a frame whose height and width are the requested ones, whatever the
  height and width of the source; the channel axis is kept.
\<close>

theorem resize_explicit_dimension:
  assumes "bgr_frame src" and "0 < width" and "0 < height"
  shows "\<exists>d. resize L src (width, height) = Inr d
           \<and> shape d = [nat height, nat width, 3] \<and> channel_count d = 3"
  using assms
  by (auto simp: resize_def bgr_frame_def channel_count_def split: list.splits)

theorem resize_explicit_dimension_witness:
  "bgr_frame frame_1x2 \<and> (0 :: int) < 300
   \<and> resized_fixed sample_cv2 frame_1x2
       = Inr \<lparr>shape = [300, 300, 3], buffer = replicate (300 * 300 * 3) 0\<rparr>"
  using resize_explicit_dimension [of frame_1x2 300 300 sample_cv2]
  by (simp add: bgr_frame_def frame_1x2_def sample_cv2_def resized_fixed_def resize_def)

text \<open>Rounding to an integer stays between the integers around the value.\<close>

lemma round_half_even_between:
  assumes "of_int a \<le> q" and "q \<le> of_int b"
  shows "a \<le> round_half_even q \<and> round_half_even q \<le> b"
proof -
  from assms(1) have lo: "a \<le> \<lfloor>q\<rfloor>" by (simp add: le_floor_iff)
  from assms(2) have hi: "\<lfloor>q\<rfloor> \<le> b" by (simp add: floor_le_iff)
  have up: "\<lfloor>q\<rfloor> + 1 \<le> b" if "0 < q - of_int \<lfloor>q\<rfloor>"
  proof -
    from that assms(2) have "(of_int \<lfloor>q\<rfloor> :: rat) < of_int b" by linarith
    then show ?thesis by simp
  qed
  show ?thesis
    using lo hi up by (auto simp: round_half_even_def Let_def)
qed

lemma round_half_even_of_int [simp]: "round_half_even (of_int n) = n"
  by (simp add: round_half_even_def)

lemma two_powi_nonneg: "0 \<le> e \<Longrightarrow> (2 :: rat) powi e = 2 ^ nat e"
  by (simp add: power_int_def)

lemma two_powi_less_imp:
  assumes "(2 :: rat) powi e \<le> q" and "q < 2 powi m"
  shows "e < m"
proof (rule ccontr)
  assume "\<not> e < m"
  then have "(2 :: rat) powi m \<le> 2 powi e"
    by (intro power_int_increasing) simp_all
  with assms show False by simp
qed

lemma floor_log2_bounds:
  assumes "0 < q"
  shows "2 powi (floor_log2 q) \<le> q \<and> q < 2 powi (floor_log2 q + 1)"
proof -
  obtain a b where ab: "quotient_of q = (a, b)" by (cases "quotient_of q") auto
  then have b: "0 < b" and q: "q = of_int a / of_int b"
    by (simp_all add: quotient_of_denom_pos quotient_of_div)
  with assms have a: "0 < a" by (simp add: zero_less_divide_iff)
  define la lb where "la = bitlen a" and "lb = bitlen b"
  from bitlen_bounds [OF a] have A: "2 ^ nat (la - 1) \<le> a" "a < 2 ^ nat la"
    by (simp_all add: la_def)
  from bitlen_bounds [OF b] have B: "2 ^ nat (lb - 1) \<le> b" "b < 2 ^ nat lb"
    by (simp_all add: lb_def)
  from a have la: "1 \<le> la" by (simp add: la_def bitlen_alt_def)
  from b have lb: "1 \<le> lb" by (simp add: lb_def bitlen_alt_def)
  have cast: "((2 :: rat) ^ n \<le> of_int k) = (2 ^ n \<le> k)"
    "((of_int k :: rat) < 2 ^ n) = (k < 2 ^ n)" for n k
    using of_int_le_iff [of "2 ^ n" k, where ?'a = rat]
      of_int_less_iff [of k "2 ^ n", where ?'a = rat]
    by simp_all
  have Ar: "(2 :: rat) powi (la - 1) \<le> of_int a" "(of_int a :: rat) < 2 powi la"
    using A la by (simp_all add: two_powi_nonneg cast)
  have Br: "(2 :: rat) powi (lb - 1) \<le> of_int b" "(of_int b :: rat) < 2 powi lb"
    using B lb by (simp_all add: two_powi_nonneg cast)
  have bpos: "(0 :: rat) < of_int b" using b by simp
  have apos: "(0 :: rat) < of_int a" using a by simp
  have low: "(2 :: rat) powi (la - lb - 1) \<le> q"
  proof -
    have "(2 :: rat) powi (la - lb - 1) = 2 powi (la - 1) / 2 powi lb"
      by (simp add: power_int_diff [symmetric] algebra_simps)
    also have "\<dots> \<le> of_int a / 2 powi lb"
      using Ar(1) by (simp add: divide_right_mono)
    also have "\<dots> \<le> of_int a / of_int b"
      using Br(2) apos bpos by (simp add: frac_le)
    finally show ?thesis by (simp add: q)
  qed
  have high: "q < (2 :: rat) powi (la - lb + 1)"
  proof -
    have "q = of_int a / of_int b" by (rule q)
    also have "\<dots> < 2 powi la / of_int b"
      using Ar(2) bpos by (simp add: divide_strict_right_mono)
    also have "\<dots> \<le> 2 powi la / 2 powi (lb - 1)"
      using Br(1) bpos by (intro divide_left_mono) simp_all
    also have "\<dots> = 2 powi (la - lb + 1)"
      by (simp add: power_int_diff [symmetric] algebra_simps)
    finally show ?thesis .
  qed
  show ?thesis
  proof (cases "(2 :: rat) powi (la - lb) \<le> q")
    case True
    with high ab show ?thesis
      by (simp add: floor_log2_def la_def lb_def Let_def)
  next
    case False
    with low ab show ?thesis
      by (simp add: floor_log2_def la_def lb_def Let_def)
  qed
qed

lemma round_binary64_bracket:
  assumes "1 \<le> q" and "q < 2 ^ 53"
  shows "\<exists>r. round_binary64 q = Finite r \<and> of_int \<lfloor>q\<rfloor> \<le> r \<and> r \<le> of_int \<lfloor>q\<rfloor> + 1
           \<and> (q = of_int \<lfloor>q\<rfloor> \<longrightarrow> r = q)"
proof -
  from assms have pos: "0 < q" by simp
  define e where "e = floor_log2 q"
  from floor_log2_bounds [OF pos] have eb: "2 powi e \<le> q" "q < 2 powi (e + 1)"
    by (simp_all add: e_def)
  from assms(2) have "q < 2 powi 53" by simp
  with eb(1) have e_hi: "e < 53" by (rule two_powi_less_imp)
  from assms(1) have "(2 :: rat) powi 0 \<le> q" by simp
  from this eb(2) have "0 < e + 1" by (rule two_powi_less_imp)
  then have e_lo: "0 \<le> e" by simp
  define k where "k = nat (52 - e)"
  define n where "n = \<lfloor>q\<rfloor>"
  have ulp: "(2 :: rat) powi (e - 52) = 1 / 2 ^ k"
  proof -
    from e_hi have "e - 52 = - int k" by (simp add: k_def)
    then show ?thesis by (simp add: power_int_minus divide_inverse)
  qed
  define m where "m = round_half_even (q * 2 ^ k)"
  have lo: "of_int (n * 2 ^ k) \<le> q * 2 ^ k"
    by (simp add: n_def)
  have hi: "q * 2 ^ k \<le> of_int ((n + 1) * 2 ^ k)"
  proof -
    have "q \<le> of_int (n + 1)" unfolding n_def by linarith
    then have "q * 2 ^ k \<le> of_int (n + 1) * 2 ^ k" by simp
    then show ?thesis by simp
  qed
  from round_half_even_between [OF lo hi]
  have mb: "n * 2 ^ k \<le> m" "m \<le> (n + 1) * 2 ^ k" by (simp_all add: m_def)
  define r :: rat where "r = of_int m / 2 ^ k"
  have r_lo: "of_int n \<le> r"
  proof -
    from mb(1) have "(of_int (n * 2 ^ k) :: rat) \<le> of_int m" by (simp only: of_int_le_iff)
    then show ?thesis by (simp add: r_def pos_le_divide_eq)
  qed
  have r_hi: "r \<le> of_int n + 1"
  proof -
    from mb(2) have "(of_int m :: rat) \<le> of_int ((n + 1) * 2 ^ k)" by (simp only: of_int_le_iff)
    then show ?thesis by (simp add: r_def pos_divide_le_eq)
  qed
  from assms(1) have n1: "1 \<le> n" by (simp add: n_def le_floor_iff)
  then have "(1 :: rat) \<le> of_int n" by simp
  with r_lo have r1: "1 \<le> r" by (rule order_trans [rotated])
  have n_hi: "n < 2 ^ 53"
  proof -
    from assms(2) have "q < of_int (2 ^ 53)" by simp
    then show ?thesis unfolding n_def by (simp only: floor_less_iff)
  qed
  then have "of_int n + 1 \<le> (2 :: rat) ^ 53"
  proof -
    from n_hi have "n + 1 \<le> 2 ^ 53" by simp
    then have "(of_int (n + 1) :: rat) \<le> of_int (2 ^ 53)" by (simp only: of_int_le_iff)
    then show ?thesis by simp
  qed
  with r_hi have "r < 2 powi 54" by simp
  moreover from r1 have "0 < r" by simp
  then have "2 powi (floor_log2 r) \<le> r" using floor_log2_bounds by blast
  ultimately have "floor_log2 r < 54" by (rule two_powi_less_imp [rotated])
  then have no_ovf: "\<not> 1024 \<le> floor_log2 \<bar>r\<bar>" using r1 by simp
  from r1 have m0: "m \<noteq> 0" by (auto simp: r_def)
  have val: "round_binary64 q = Finite r"
    using pos e_lo r1 no_ovf m0
    by (simp add: round_binary64_def e_def [symmetric] ulp Let_def m_def [symmetric]
        r_def [symmetric])
  have exact: "r = q" if "q = of_int n"
  proof -
    from that have "q * 2 ^ k = of_int (n * 2 ^ k)" by simp
    then have "m = n * 2 ^ k" unfolding m_def by (simp only: round_half_even_of_int)
    then show ?thesis by (simp add: r_def that)
  qed
  from val r_lo r_hi exact show ?thesis by (auto simp: n_def)
qed

lemma round_binary64_of_nat:
  assumes "n < 2 ^ 53"
  shows "round_binary64 (of_nat n) = Finite (of_nat n)"
proof (cases "n = 0")
  case True
  then show ?thesis by (simp add: round_binary64_def)
next
  case False
  then have "1 \<le> (of_nat n :: rat)" by simp
  moreover from assms have "(of_nat n :: rat) < 2 ^ 53"
    by (metis of_nat_less_iff of_nat_numeral of_nat_power)
  ultimately show ?thesis
    using round_binary64_bracket [of "of_nat n"] by auto
qed

lemma int_mul_float_bracket:
  assumes "n < 2 ^ 53" and "1 \<le> of_nat n * f" and "of_nat n * f < 2 ^ 53"
  shows "\<exists>p. int_mul_float (int n) f = Inr (Finite p)
           \<and> of_int \<lfloor>of_nat n * f\<rfloor> \<le> p \<and> p \<le> of_int \<lfloor>of_nat n * f\<rfloor> + 1"
  using round_binary64_of_nat [OF assms(1)] round_binary64_bracket [OF assms(2,3)]
  by (auto simp: int_mul_float_def)

text \<open>Float products, evaluated.\<close>

lemma float_products:
  "int_mul_float 739 (1 / 2) = Inr (Finite (739 / 2))"
  "int_mul_float 486 (1 / 2) = Inr (Finite 243)"
  "int_mul_float 739 (3 / 4) = Inr (Finite (2217 / 4))"
  "int_mul_float 486 (3 / 4) = Inr (Finite (729 / 2))"
  "int_mul_float 2 (1 / 4) = Inr (Finite (1 / 2))"
  "int_mul_float 2 (7 / 8) = Inr (Finite (7 / 4))"
  "int_mul_float 10 float_0_7 = Inr (Finite 7)"
  "int_mul_float 2 float_0_7 = Inr (Finite (3152519739159347 / 2251799813685248))"
  unfolding int_mul_float_def round_binary64_def float_0_7_def by code_simp+

lemma roundings:
  "round_half_even (2217 / 4) = 554" "round_half_even (729 / 2) = 364"
  "round_half_even (7 / 4) = 2"
  unfolding round_half_even_def by code_simp+

lemma floor_exact_products:
  "\<lfloor>of_nat 10 * float_0_7\<rfloor> = 6" "\<lfloor>of_nat 2 * float_0_7\<rfloor> = 1"
  unfolding float_0_7_def by code_simp+

text \<open>
  The sizes the cell printed for the 739 x 486 image: 369 x 243 at scale factor 0.5, and
  554 x 364 for \<open>fx = fy = 0.75\<close>.
\<close>

lemma recorded_sizes:
  "\<exists>d. resized_scaled L frame_486x739 (1 / 2) = Inr d \<and> shape d = [243, 369, 3]"
  "\<exists>d. resized_fx L frame_486x739 (3 / 4) (3 / 4) = Inr d \<and> shape d = [364, 554, 3]"
  by (simp_all add: resized_scaled_def resized_fx_def height_width_def frame_486x739_def
      float_products roundings py_int_def resize_def)

text \<open>
  C5, as the claim states it.  At scale factor 0.25 the 2 x 2 frame is not resized to a
  frame of size \<open>(floor (2 * 0.25), floor (2 * 0.25)) = (0, 0)\<close>: the call raises.  At
  scale factor 0.7 the frame of width 10 gets width 7, not \<open>floor (10 * 0.7) = 6\<close>
  (the float 0.7 lies below 7/10, and the float product \<open>10 * 0.7\<close> is rounded to 7.0
  before \<open>int\<close> truncates it).  With \<open>fx = fy = 0.875\<close> the 2 x 2 frame keeps the
  size 2 x 2, not \<open>floor (2 * 0.875) = 1\<close>: the library rounds 1.75 to the nearest
  integer.
\<close>

theorem resized_not_floor:
  "resized_scaled sample_cv2 frame_2x2 (1 / 4) = Inl cv2_error
   \<and> \<lfloor>of_nat 2 * (1 / 4 :: rat)\<rfloor> = 0
   \<and> resized_scaled sample_cv2 frame_2x10 float_0_7
       = Inr \<lparr>shape = [1, 7, 3], buffer = replicate (1 * 7 * 3) 0\<rparr>
   \<and> \<lfloor>of_nat 10 * float_0_7\<rfloor> = 6
   \<and> resized_fx sample_cv2 frame_2x2 (7 / 8) (7 / 8)
       = Inr \<lparr>shape = [2, 2, 3], buffer = replicate (2 * 2 * 3) 1\<rparr>
   \<and> \<lfloor>of_nat 2 * (7 / 8 :: rat)\<rfloor> = 1"
  by (simp add: resized_scaled_def resized_fx_def height_width_def frame_2x2_def
      frame_2x10_def float_products roundings py_int_def resize_def sample_cv2_def
      floor_exact_products [simplified])

lemma side_bounds:
  assumes "n < 2 ^ 31" and "1 \<le> of_nat n * f" and "of_nat n * f < 2 ^ 31 - 1"
  shows "\<exists>p. int_mul_float (int n) f = Inr (Finite p)
           \<and> \<lfloor>of_nat n * f\<rfloor> \<le> \<lfloor>p\<rfloor> \<and> \<lfloor>p\<rfloor> \<le> \<lfloor>of_nat n * f\<rfloor> + 1
           \<and> 1 \<le> \<lfloor>p\<rfloor> \<and> \<lfloor>p\<rfloor> < 2 ^ 31
           \<and> 1 \<le> round_half_even p \<and> round_half_even p < 2 ^ 31"
proof -
  define q where "q = of_nat n * f"
  from assms(1) have n: "n < 2 ^ 53"
    by (rule less_trans) simp
  from assms(3) have q53: "q < 2 ^ 53" by (simp add: q_def)
  from int_mul_float_bracket [OF n assms(2) q53 [unfolded q_def]]
  obtain p where p: "int_mul_float (int n) f = Inr (Finite p)"
    and lo: "of_int \<lfloor>q\<rfloor> \<le> p" and hi: "p \<le> of_int \<lfloor>q\<rfloor> + 1"
    by (auto simp: q_def)
  from assms(2) have q1: "1 \<le> \<lfloor>q\<rfloor>" by (simp add: q_def le_floor_iff)
  from assms(3) have "q < of_int (2 ^ 31 - 1)" by (simp add: q_def)
  then have qh: "\<lfloor>q\<rfloor> < 2 ^ 31 - 1" by (simp only: floor_less_iff)
  from lo have f_lo: "\<lfloor>q\<rfloor> \<le> \<lfloor>p\<rfloor>" by (simp add: le_floor_iff)
  from hi have "p \<le> of_int (\<lfloor>q\<rfloor> + 1)" by simp
  then have f_hi: "\<lfloor>p\<rfloor> \<le> \<lfloor>q\<rfloor> + 1" by (simp only: floor_le_iff)
  from q1 have "(of_int 1 :: rat) \<le> of_int \<lfloor>q\<rfloor>" by (simp only: of_int_le_iff)
  from this lo have "of_int 1 \<le> p" by (rule order_trans)
  from round_half_even_between [OF this \<open>p \<le> of_int (\<lfloor>q\<rfloor> + 1)\<close>]
  have r: "1 \<le> round_half_even p" "round_half_even p \<le> \<lfloor>q\<rfloor> + 1" by simp_all
  from q1 f_lo have p1: "1 \<le> \<lfloor>p\<rfloor>" by linarith
  from qh f_hi have p31: "\<lfloor>p\<rfloor> < 2 ^ 31" by linarith
  from qh r(2) have r31: "round_half_even p < 2 ^ 31" by linarith
  from p f_lo f_hi p1 p31 r(1) r31 show ?thesis
    unfolding q_def by blast
qed

text \<open>
  C5, amended: for a frame of size \<open>(W, H)\<close>, both below \<open>2 ^ 31\<close>, and a scale factor
  \<open>f\<close> with \<open>1 \<le> W * f < 2 ^ 31 - 1\<close> and \<open>1 \<le> H * f < 2 ^ 31 - 1\<close>, the float
  products \<open>pw\<close> of \<open>W\<close> and \<open>f\<close> and \<open>ph\<close> of \<open>H\<close> and \<open>f\<close> are finite; the
  scale-by-factor resize yields a frame of width \<open>floor pw\<close> and height \<open>floor ph\<close>,
  each of them the floor of the exact product or one more; and the resize by
  \<open>fx = fy = f\<close> yields a frame of width \<open>pw\<close> and height \<open>ph\<close> rounded to the
  nearest integer, a tie to the even one.
\<close>

theorem resized_by_scale_factor:
  assumes "bgr_frame src" and "shape src = [H, W, 3]"
    and "W < 2 ^ 31" and "H < 2 ^ 31"
    and "1 \<le> of_nat W * f" and "of_nat W * f < 2 ^ 31 - 1"
    and "1 \<le> of_nat H * f" and "of_nat H * f < 2 ^ 31 - 1"
  shows "\<exists>pw ph.
           int_mul_float (int W) f = Inr (Finite pw)
           \<and> int_mul_float (int H) f = Inr (Finite ph)
           \<and> \<lfloor>of_nat W * f\<rfloor> \<le> \<lfloor>pw\<rfloor> \<and> \<lfloor>pw\<rfloor> \<le> \<lfloor>of_nat W * f\<rfloor> + 1
           \<and> \<lfloor>of_nat H * f\<rfloor> \<le> \<lfloor>ph\<rfloor> \<and> \<lfloor>ph\<rfloor> \<le> \<lfloor>of_nat H * f\<rfloor> + 1
           \<and> (\<exists>d. resized_scaled L src f = Inr d \<and> shape d = [nat \<lfloor>ph\<rfloor>, nat \<lfloor>pw\<rfloor>, 3])
           \<and> (\<exists>d. resized_fx L src f f = Inr d
                 \<and> shape d = [nat (round_half_even ph), nat (round_half_even pw), 3])"
proof -
  from side_bounds [OF assms(3,5,6)]
  obtain pw where pw: "int_mul_float (int W) f = Inr (Finite pw)"
    and w: "\<lfloor>of_nat W * f\<rfloor> \<le> \<lfloor>pw\<rfloor>" "\<lfloor>pw\<rfloor> \<le> \<lfloor>of_nat W * f\<rfloor> + 1"
      "1 \<le> \<lfloor>pw\<rfloor>" "1 \<le> round_half_even pw" "round_half_even pw < 2 ^ 31"
    by blast
  from side_bounds [OF assms(4,7,8)]
  obtain ph where ph: "int_mul_float (int H) f = Inr (Finite ph)"
    and h: "\<lfloor>of_nat H * f\<rfloor> \<le> \<lfloor>ph\<rfloor>" "\<lfloor>ph\<rfloor> \<le> \<lfloor>of_nat H * f\<rfloor> + 1"
      "1 \<le> \<lfloor>ph\<rfloor>" "1 \<le> round_half_even ph" "round_half_even ph < 2 ^ 31"
    by blast
  have f: "0 < f"
  proof (rule ccontr)
    assume "\<not> 0 < f"
    then have "of_nat W * f \<le> 0" by (simp add: mult_nonneg_nonpos)
    with assms(5) show False by simp
  qed
  from w(3) have pw0: "\<not> pw < 0" by (simp add: le_floor_iff)
  from h(3) have ph0: "\<not> ph < 0" by (simp add: le_floor_iff)
  have scaled: "\<exists>d. resized_scaled L src f = Inr d \<and> shape d = [nat \<lfloor>ph\<rfloor>, nat \<lfloor>pw\<rfloor>, 3]"
    using assms(2) pw ph pw0 ph0 w(3) h(3)
    by (simp add: resized_scaled_def height_width_def py_int_def resize_def)
  have fx: "\<exists>d. resized_fx L src f f = Inr d
              \<and> shape d = [nat (round_half_even ph), nat (round_half_even pw), 3]"
    using assms(2) pw ph f w(4,5) h(4,5)
    by (simp add: resized_fx_def Let_def)
  from pw ph w(1,2) h(1,2) scaled fx show ?thesis by blast
qed

theorem resized_by_scale_factor_witness:
  "bgr_frame frame_2x10 \<and> shape frame_2x10 = [2, 10, 3]
   \<and> (1 :: rat) \<le> of_nat 10 * float_0_7 \<and> (1 :: rat) \<le> of_nat 2 * float_0_7
   \<and> int_mul_float (int 10) float_0_7 = Inr (Finite 7)
   \<and> \<lfloor>of_nat 10 * float_0_7\<rfloor> = 6
   \<and> resized_scaled sample_cv2 frame_2x10 float_0_7
       = Inr \<lparr>shape = [1, 7, 3], buffer = replicate (1 * 7 * 3) 0\<rparr>
   \<and> resized_fx sample_cv2 frame_2x10 float_0_7 float_0_7
       = Inr \<lparr>shape = [1, 7, 3], buffer = replicate (1 * 7 * 3) 1\<rparr>"
proof -
  have a: "bgr_frame frame_2x10" by (simp add: bgr_frame_def frame_2x10_def)
  have b: "shape frame_2x10 = [2, 10, 3]" by (simp add: frame_2x10_def)
  have c: "(1 :: rat) \<le> of_nat 10 * float_0_7" "of_nat 10 * float_0_7 < 2 ^ 31 - 1"
    "(1 :: rat) \<le> of_nat 2 * float_0_7" "of_nat 2 * float_0_7 < 2 ^ 31 - 1"
    by (simp_all add: float_0_7_def)
  have r: "round_half_even (3152519739159347 / 2251799813685248) = 1" "round_half_even 7 = 7"
    unfolding round_half_even_def by code_simp+
  have fl: "\<lfloor>3152519739159347 / 2251799813685248 :: rat\<rfloor> = 1" by simp
  have pos: "0 < float_0_7" by (simp add: float_0_7_def)
  have s: "resized_scaled sample_cv2 frame_2x10 float_0_7
       = Inr \<lparr>shape = [1, 7, 3], buffer = replicate (1 * 7 * 3) 0\<rparr>"
    by (simp add: resized_scaled_def height_width_def frame_2x10_def float_products
        py_int_def resize_def sample_cv2_def fl)
  have x: "resized_fx sample_cv2 frame_2x10 float_0_7 float_0_7
       = Inr \<lparr>shape = [1, 7, 3], buffer = replicate (1 * 7 * 3) 1\<rparr>"
    using pos by (simp add: resized_fx_def frame_2x10_def float_products r sample_cv2_def)
  from resized_by_scale_factor [OF a b _ _ c, of sample_cv2] a b c(1,3) s x
    float_products(7) floor_exact_products(1)
  show ?thesis by simp
qed

section \<open>Pixel access\<close>

lemma index_axis_in_range:
  assumes "- int n \<le> i" and "i < int n"
  obtains k where "k < n" and "index_axis n i = Inr k"
proof (cases "0 \<le> i")
  case True
  with assms have "nat i < n" and "index_axis n i = Inr (nat i)"
    by (simp_all add: index_axis_def)
  then show ?thesis by (rule that)
next
  case False
  with assms have "nat (int n + i) < n" and "index_axis n i = Inr (nat (int n + i))"
    by (simp_all add: index_axis_def)
  then show ?thesis by (rule that)
qed

lemma pixel_offset_bound:
  fixes i j h w :: nat
  assumes "i < h" and "j < w"
  shows "(i * w + j) * 3 + 3 \<le> h * w * 3"
proof -
  from assms have "i * w + j < h * w" by (rule flat_offset_bound)
  then show ?thesis by simp
qed

text \<open>
  The guarded read for every pair of indices that NumPy accepts on the two axes.
\<close>

lemma pixel_access_in_range:
  assumes "bgr_frame img" and "shape img = [H, W, 3]"
    and "- int H \<le> y" and "- int W \<le> x"
  shows "if y < int H \<and> x < int W
         then \<exists>pixel b g r.
                pixel_access (Some img) y x = Inr (Pixel_values x y pixel b g r b g r)
                \<and> getitem img [y, x] = Inr pixel
                \<and> shape pixel = [3] \<and> length (buffer pixel) = 3
                \<and> shape b = [] \<and> length (buffer b) = 1
                \<and> shape g = [] \<and> length (buffer g) = 1
                \<and> shape r = [] \<and> length (buffer r) = 1
         else pixel_access (Some img) y x = Inr (Out_of_bounds x y)"
proof (cases "y < int H \<and> x < int W")
  case False
  with assms(2) show ?thesis
    by (auto simp: pixel_access_def shape_at_def)
next
  case True
  with assms(3,4) obtain i j where i: "i < H" "index_axis H y = Inr i"
    and j: "j < W" "index_axis W x = Inr j"
    by (metis index_axis_in_range)
  from assms(1,2) have len: "length (buffer img) = H * W * 3"
    by (simp add: bgr_frame_def)
  from i(1) j(1) have bound: "(i * W + j) * 3 + 3 \<le> length (buffer img)"
    by (simp only: len pixel_offset_bound)
  define off where "off = (i * W + j) * 3"
  define pixel where "pixel = \<lparr>shape = [3], buffer = take 3 (drop off (buffer img))\<rparr>"
  define ch where "ch c = \<lparr>shape = [], buffer = take (Suc 0) (drop (off + c) (buffer img))\<rparr>" for c
  have p: "getitem img [y, x] = Inr pixel"
    using assms(2) i(2) j(2) by (simp add: getitem_def pixel_def off_def)
  have c: "getitem img [y, x, int c] = Inr (ch c)" if "c < 3" for c
    using that assms(2) i(2) j(2) by (simp add: getitem_def ch_def off_def index_axis_def)
  have u: "getitem pixel [int c] = Inr (ch c)" if "c < 3" for c
    using that bound
    by (simp add: getitem_def pixel_def ch_def index_axis_def off_def drop_take
        min_def add.commute)
  have unp: "unpack3 pixel = Inr (ch 0, ch 1, ch 2)"
    using u [of 0] u [of 1] u [of 2] by (simp add: unpack3_def pixel_def)
  have l: "length (buffer (ch c)) = 1" if "c < 3" for c
    using that bound by (simp add: ch_def off_def)
  have lp: "length (buffer pixel) = 3"
    using bound by (simp add: pixel_def off_def)
  have "pixel_access (Some img) y x = Inr (Pixel_values x y pixel (ch 0) (ch 1) (ch 2) (ch 0) (ch 1) (ch 2))"
    using True assms(2) p unp c [of 0] c [of 1] c [of 2]
    by (simp add: pixel_access_def shape_at_def read_pixel_def)
  with True p lp l [of 0] l [of 1] l [of 2] show ?thesis
    by (auto simp: pixel_def ch_def)
qed

text \<open>
  C10: for a colour frame of height \<open>H\<close> and width \<open>W\<close> and every pair of pixel
  coordinates \<open>(y, x)\<close>, neither of them negative, the frame is indexed only when
  \<open>y < H\<close> and \<open>x < W\<close>.  Then every read is in range: the pixel read yields the
  three bytes at offset \<open>(y * W + x) * 3\<close> of the buffer, and the three channel-wise
  reads yield the same bytes one by one.  Coordinates that fail the test take the
  reporting branch, and nothing is read.
\<close>

theorem pixel_access_bounds_checked:
  assumes "bgr_frame img" and "shape img = [H, W, 3]" and "0 \<le> y" and "0 \<le> x"
  shows "if y < int H \<and> x < int W
         then \<exists>pixel b g r.
                pixel_access (Some img) y x = Inr (Pixel_values x y pixel b g r b g r)
                \<and> getitem img [y, x] = Inr pixel
                \<and> shape pixel = [3]
                \<and> buffer pixel = take 3 (drop ((nat y * W + nat x) * 3) (buffer img))
                \<and> length (buffer pixel) = 3
                \<and> shape b = [] \<and> length (buffer b) = 1
                \<and> shape g = [] \<and> length (buffer g) = 1
                \<and> shape r = [] \<and> length (buffer r) = 1
         else pixel_access (Some img) y x = Inr (Out_of_bounds x y)"
proof (cases "y < int H \<and> x < int W")
  case False
  with pixel_access_in_range [OF assms(1,2), of y x] assms(3,4) show ?thesis
    by simp
next
  case True
  with assms(2,3,4)
  have "getitem img [y, x]
        = Inr \<lparr>shape = [3], buffer = take 3 (drop ((nat y * W + nat x) * 3) (buffer img))\<rparr>"
    by (simp add: getitem_def index_axis_def)
  with pixel_access_in_range [OF assms(1,2), of y x] assms(3,4) True show ?thesis
    by auto
qed

theorem pixel_access_bounds_checked_witness:
  "bgr_frame frame_2x2 \<and> shape frame_2x2 = [2, 2, 3]
   \<and> pixel_access (Some frame_2x2) 1 1
       = Inr (Pixel_values 1 1 \<lparr>shape = [3], buffer = [100, 110, 120]\<rparr>
               \<lparr>shape = [], buffer = [100]\<rparr> \<lparr>shape = [], buffer = [110]\<rparr>
               \<lparr>shape = [], buffer = [120]\<rparr>
               \<lparr>shape = [], buffer = [100]\<rparr> \<lparr>shape = [], buffer = [110]\<rparr>
               \<lparr>shape = [], buffer = [120]\<rparr>)
   \<and> pixel_access (Some frame_2x2) 2 0 = Inr (Out_of_bounds 0 2)
   \<and> pixel_access (Some frame_2x2) 0 5 = Inr (Out_of_bounds 5 0)"
  using pixel_access_bounds_checked [of frame_2x2 2 2 1 1]
    pixel_access_bounds_checked [of frame_2x2 2 2 2 0]
  by (simp add: bgr_frame_def frame_2x2_def pixel_access_def shape_at_def read_pixel_def
      getitem_def index_axis_def unpack3_def)

section \<open>Effects of one iteration\<close>

lemma length_filter_take: "length (filter P (take k xs)) \<le> length (filter P xs)"
proof -
  have "length (filter P xs) = length (filter P (take k xs @ drop k xs))" by simp
  also have "\<dots> = length (filter P (take k xs)) + length (filter P (drop k xs))"
    by (simp only: filter_append length_append)
  finally show ?thesis by simp
qed

lemma record_effects_counts:
  assumes "record_effects L n frame = Inr evs"
  shows "appends evs = 1 \<and> displays evs = 2 \<and> length (filter (shown_in win) evs) \<le> 1"
  using assms
  by (auto simp: record_effects_def appends_def displays_def split: sum.splits if_splits)

lemma record_effects_bgr:
  assumes "bgr_frame frame"
  shows "\<exists>evs. record_effects L n frame = Inr evs"
  using assms
  by (auto simp: record_effects_def bgr_frame_def split: list.splits)

text \<open>
  C3, as the claim states it: one iteration of the record loop on a delivered frame
  performs two display updates, \<open>cv2.imshow("Live Feed (Grayscale)", gray_frame)\<close>
  and \<open>cv2.imshow("Original Feed", frame)\<close>.
\<close>

theorem record_iteration_two_displays:
  "displays (snd (snd (record_iteration sample_cv2 0 (Frame frame_1x2 (- 1))))) = 2"
  by (simp add: record_effects_def frame_1x2_def displays_def)

lemma record_iteration_counts:
  "appends (snd (snd (record_iteration L n t))) \<le> 1
   \<and> displays (snd (snd (record_iteration L n t))) \<le> 2
   \<and> length (filter (shown_in win) (snd (snd (record_iteration L n t)))) \<le> 1"
proof (cases t)
  case (Frame frame key)
  show ?thesis
  proof (cases "record_effects L (n + 1) frame")
    case (Inl e)
    with Frame show ?thesis by (simp add: appends_def displays_def)
  next
    case (Inr evs)
    from record_effects_counts [OF Inr, where win = win] Frame Inr show ?thesis
      by (simp add: appends_def displays_def)
  qed
next
  case (Interrupt_after frame k)
  show ?thesis
  proof (cases "record_effects L (n + 1) frame")
    case (Inl e)
    with Interrupt_after show ?thesis by (simp add: appends_def displays_def)
  next
    case (Inr evs)
    have "length (filter P (take k evs)) \<le> length (filter P evs)" for P
      by (rule length_filter_take)
    from this [of is_append] this [of is_display] this [of "shown_in win"]
      record_effects_counts [OF Inr, where win = win] Interrupt_after Inr
    show ?thesis
      by (simp add: appends_def displays_def)
  qed
qed (simp_all add: appends_def displays_def)

lemma feed_iteration_counts:
  "appends (snd (feed_iteration t)) = 0 \<and> displays (snd (feed_iteration t)) \<le> 1"
proof (cases t)
  case (Interrupt_after frame k)
  then show ?thesis by (cases k) (simp_all add: appends_def displays_def)
qed (simp_all add: appends_def displays_def)

lemma overlay_iteration_counts:
  "appends (snd (overlay_iteration L t)) = 0 \<and> displays (snd (overlay_iteration L t)) \<le> 1"
proof (cases t)
  case (Interrupt_after frame k)
  then show ?thesis by (cases k) (simp_all add: appends_def displays_def)
qed (simp_all add: appends_def displays_def)

text \<open>
  C3, amended: in every iteration of a capture loop at most one frame is appended to the
  output stream and every window is updated at most once.  The record loop updates two
  windows, so it performs at most two display updates in an iteration; the camera-feed
  loop and the overlay loop perform at most one, and append nothing.
\<close>

theorem iteration_effects_at_most_once:
  "appends (snd (snd (record_iteration L n t))) \<le> 1
   \<and> length (filter (shown_in win) (snd (snd (record_iteration L n t)))) \<le> 1
   \<and> displays (snd (snd (record_iteration L n t))) \<le> 2
   \<and> appends (snd (feed_iteration t)) = 0
   \<and> displays (snd (feed_iteration t)) \<le> 1
   \<and> appends (snd (overlay_iteration L t)) = 0
   \<and> displays (snd (overlay_iteration L t)) \<le> 1"
  using record_iteration_counts [of L n t win] feed_iteration_counts [of t]
    overlay_iteration_counts [of L t]
  by simp

theorem iteration_effects_at_most_once_witness:
  "appends (snd (snd (record_iteration sample_cv2 29 (Frame frame_1x2 27)))) = 1
   \<and> length (filter (shown_in ''Original Feed'')
       (snd (snd (record_iteration sample_cv2 29 (Frame frame_1x2 27))))) = 1
   \<and> displays (snd (feed_iteration (Frame frame_1x2 27))) = 1"
  using iteration_effects_at_most_once [of sample_cv2 29 "Frame frame_1x2 27" "''Original Feed''"]
  by (simp add: record_effects_def frame_1x2_def appends_def displays_def ord_q_def)

section \<open>Runs of the loops\<close>

lemma record_loop_append:
  assumes "record_loop L n pre = (Continue, m, evs)"
  shows "record_loop L n (pre @ ts)
         = (case record_loop L m ts of (c, n', evs') \<Rightarrow> (c, n', evs @ evs'))"
  using assms
proof (induction pre arbitrary: n evs)
  case Nil
  then show ?case by (simp split: prod.splits)
next
  case (Cons t pre)
  obtain c k e where it: "record_iteration L n t = (c, k, e)"
    by (cases "record_iteration L n t") auto
  show ?case
  proof (cases c)
    case Continue
    obtain c' k' e' where lp: "record_loop L k pre = (c', k', e')"
      by (cases "record_loop L k pre") auto
    with Cons.prems it Continue have "c' = Continue" "k' = m" "evs = e @ e'"
      by simp_all
    with Cons.IH [of k e'] lp it Continue show ?thesis
      by (simp split: prod.splits)
  next
    case Break
    with Cons.prems it show ?thesis by simp
  next
    case (Raise x)
    with Cons.prems it show ?thesis by simp
  qed
qed

lemma record_loop_continuing:
  assumes "\<forall>t \<in> set pre. continuing 27 t"
  shows "\<exists>evs. record_loop L n pre = (Continue, n + length pre, evs)"
  using assms
proof (induction pre arbitrary: n)
  case Nil
  then show ?case by simp
next
  case (Cons t pre)
  then obtain frame key where t: "t = Frame frame key" "bgr_frame frame" "key AND 255 \<noteq> 27"
    by (cases t) auto
  from record_effects_bgr [OF t(2)] obtain e where e: "record_effects L (n + 1) frame = Inr e"
    by blast
  from Cons.IH [of "n + 1"] Cons.prems obtain e'
    where "record_loop L (n + 1) pre = (Continue, n + 1 + length pre, e')"
    by auto
  with t e show ?case by simp
qed

lemma overlay_loop_append:
  assumes "overlay_loop L pre = (Continue, evs)"
  shows "overlay_loop L (pre @ ts)
         = (case overlay_loop L ts of (c, evs') \<Rightarrow> (c, evs @ evs'))"
  using assms
proof (induction pre arbitrary: evs)
  case Nil
  then show ?case by (simp split: prod.splits)
next
  case (Cons t pre)
  obtain c e where it: "overlay_iteration L t = (c, e)"
    by (cases "overlay_iteration L t") auto
  show ?case
  proof (cases c)
    case Continue
    obtain c' e' where lp: "overlay_loop L pre = (c', e')"
      by (cases "overlay_loop L pre") auto
    with Cons.prems it Continue have "c' = Continue" "evs = e @ e'"
      by simp_all
    with Cons.IH [of e'] lp it Continue show ?thesis
      by (simp split: prod.splits)
  next
    case Break
    with Cons.prems it show ?thesis by simp
  next
    case (Raise x)
    with Cons.prems it show ?thesis by simp
  qed
qed

lemma overlay_loop_continuing:
  assumes "\<forall>t \<in> set pre. continuing ord_q t"
  shows "\<exists>evs. overlay_loop L pre = (Continue, evs)"
  using assms
proof (induction pre)
  case Nil
  then show ?case by simp
next
  case (Cons t pre)
  then obtain frame key where "t = Frame frame key" "key AND 255 \<noteq> ord_q"
    by (cases t) auto
  with Cons show ?case by auto
qed

text \<open>
  C7: when the very first pull fails, the record cell, the overlay cell and the
  camera-feed cell show no frame and append none, and release what they hold: the camera
  and, in the record cell, the output stream.  A failed pull after any number of
  delivered frames is handled in the same way: the effects of those frames are followed
  by the same message and the same releases (in the record cell with the number of
  frames in the last message).
\<close>

theorem end_of_stream_releases:
  assumes "\<forall>t \<in> set pre. continuing 27 t" and "\<forall>t \<in> set pre'. continuing ord_q t"
  shows "record_cell L True (Read_fails # rest)
           = Some \<lparr>events = [Print Cant_receive_frame, Release_cap, Release_out,
                              DestroyAllWindows, Print (Total_frames_captured 0)],
                    raised = None\<rparr>
    \<and> overlay_cell L (Read_fails # rest)
           = Some \<lparr>events = [Print Failed_to_capture_image, Release_cap, DestroyAllWindows],
                    raised = None\<rparr>
    \<and> camera_feed_cell True (Read_fails # rest)
           = Some \<lparr>events = [Print Failed_to_capture_frame, Release_cap, DestroyAllWindows],
                    raised = None\<rparr>
    \<and> (\<exists>evs. record_loop L 0 pre = (Continue, length pre, evs)
          \<and> record_cell L True (pre @ Read_fails # rest)
              = Some \<lparr>events = evs @ [Print Cant_receive_frame, Release_cap, Release_out,
                                       DestroyAllWindows,
                                       Print (Total_frames_captured (length pre))],
                       raised = None\<rparr>)
    \<and> (\<exists>evs. overlay_loop L pre' = (Continue, evs)
          \<and> overlay_cell L (pre' @ Read_fails # rest)
              = Some \<lparr>events = evs @ [Print Failed_to_capture_image, Release_cap,
                                       DestroyAllWindows],
                       raised = None\<rparr>)"
proof -
  from record_loop_continuing [OF assms(1), of L 0]
  obtain evs where evs: "record_loop L 0 pre = (Continue, length pre, evs)"
    by auto
  from overlay_loop_continuing [OF assms(2), of L]
  obtain evs' where evs': "overlay_loop L pre' = (Continue, evs')"
    by auto
  have r: "record_cell L True (pre @ Read_fails # rest)
           = Some \<lparr>events = evs @ [Print Cant_receive_frame, Release_cap, Release_out,
                     DestroyAllWindows, Print (Total_frames_captured (length pre))],
                   raised = None\<rparr>"
    by (simp add: record_cell_def record_loop_append [OF evs] cleanup_def)
  have ov: "overlay_cell L (pre' @ Read_fails # rest)
           = Some \<lparr>events = evs' @ [Print Failed_to_capture_image, Release_cap,
                     DestroyAllWindows], raised = None\<rparr>"
    by (simp add: overlay_cell_def overlay_loop_append [OF evs'])
  have first: "record_cell L True (Read_fails # rest)
           = Some \<lparr>events = [Print Cant_receive_frame, Release_cap, Release_out,
                              DestroyAllWindows, Print (Total_frames_captured 0)],
                    raised = None\<rparr>"
    by (simp add: record_cell_def cleanup_def)
  have o1: "overlay_cell L (Read_fails # rest)
           = Some \<lparr>events = [Print Failed_to_capture_image, Release_cap, DestroyAllWindows],
                    raised = None\<rparr>"
    by (simp add: overlay_cell_def)
  have f1: "camera_feed_cell True (Read_fails # rest)
           = Some \<lparr>events = [Print Failed_to_capture_frame, Release_cap, DestroyAllWindows],
                    raised = None\<rparr>"
    by (simp add: camera_feed_cell_def)
  from first o1 f1 evs r evs' ov show ?thesis by blast
qed

theorem end_of_stream_releases_witness:
  "continuing 27 (Frame frame_1x2 (- 1)) \<and> continuing ord_q (Frame frame_1x2 (- 1))
   \<and> displays [Print Cant_receive_frame, Release_cap, Release_out, DestroyAllWindows,
                Print (Total_frames_captured 0)] = 0
   \<and> appends [Print Cant_receive_frame, Release_cap, Release_out, DestroyAllWindows,
               Print (Total_frames_captured 0)] = 0
   \<and> record_cell sample_cv2 True [Frame frame_1x2 (- 1), Read_fails]
       = Some \<lparr>events = [Write \<lparr>shape = [1, 2, 3], buffer = [20, 20, 20, 50, 50, 50]\<rparr>,
                          Imshow ''Live Feed (Grayscale)'' \<lparr>shape = [1, 2], buffer = [20, 50]\<rparr>,
                          Imshow ''Original Feed'' frame_1x2,
                          Print Cant_receive_frame, Release_cap, Release_out,
                          DestroyAllWindows, Print (Total_frames_captured 1)],
                raised = None\<rparr>"
  using end_of_stream_releases [of "[Frame frame_1x2 (- 1)]" "[Frame frame_1x2 (- 1)]"
      sample_cv2 "[]"]
  by (simp add: bgr_frame_def frame_1x2_def sample_cv2_def ord_q_def displays_def
      appends_def record_cell_def record_effects_def cleanup_def)

text \<open>
  C8: when \<open>cv2.waitKey(1) & 0xFF\<close> is the stop code 27, after any number of
  iterations that went on, the record loop ends with this iteration: the iteration's
  write and its two display updates are all done, the rest of the run is the message
  and the cleanup, and it shows no frame and appends none (so at most one); what the
  outside would do in later iterations has no part in the run.
\<close>

theorem stop_key_exits:
  assumes "\<forall>t \<in> set pre. continuing 27 t" and "bgr_frame frame" and "key AND 255 = 27"
  shows "\<exists>evs now.
           record_loop L 0 pre = (Continue, length pre, evs)
           \<and> record_effects L (length pre + 1) frame = Inr now
           \<and> appends now = 1 \<and> displays now = 2
           \<and> record_cell L True (pre @ Frame frame key # rest)
               = Some \<lparr>events = evs @ now
                          @ [Print Recording_stopped_by_user, Release_cap, Release_out,
                             DestroyAllWindows,
                             Print (Total_frames_captured (length pre + 1))],
                        raised = None\<rparr>
           \<and> displays [Print Recording_stopped_by_user, Release_cap, Release_out,
                        DestroyAllWindows, Print (Total_frames_captured (length pre + 1))]
               + appends [Print Recording_stopped_by_user, Release_cap, Release_out,
                          DestroyAllWindows, Print (Total_frames_captured (length pre + 1))]
               = 0"
proof -
  from record_loop_continuing [OF assms(1), of L 0]
  obtain evs where evs: "record_loop L 0 pre = (Continue, length pre, evs)"
    by auto
  from record_effects_bgr [OF assms(2)]
  obtain now where now: "record_effects L (length pre + 1) frame = Inr now"
    by blast
  from record_effects_counts [OF now, where win = "[]"]
  have counts: "appends now = 1" "displays now = 2" by simp_all
  have "record_cell L True (pre @ Frame frame key # rest)
        = Some \<lparr>events = evs @ now
                   @ [Print Recording_stopped_by_user, Release_cap, Release_out,
                      DestroyAllWindows, Print (Total_frames_captured (length pre + 1))],
                 raised = None\<rparr>"
    using now assms(3)
    by (simp add: record_cell_def record_loop_append [OF evs] cleanup_def)
  with evs now counts show ?thesis
    by (simp add: displays_def appends_def)
qed

theorem stop_key_exits_witness:
  "continuing 27 (Frame frame_1x2 (- 1)) \<and> bgr_frame frame_1x2 \<and> (27 :: int) AND 255 = 27
   \<and> record_cell sample_cv2 True [Frame frame_1x2 (- 1), Frame frame_1x2 27, Frame frame_1x2 (- 1)]
       = Some \<lparr>events = [Write \<lparr>shape = [1, 2, 3], buffer = [20, 20, 20, 50, 50, 50]\<rparr>,
                          Imshow ''Live Feed (Grayscale)'' \<lparr>shape = [1, 2], buffer = [20, 50]\<rparr>,
                          Imshow ''Original Feed'' frame_1x2,
                          Write \<lparr>shape = [1, 2, 3], buffer = [20, 20, 20, 50, 50, 50]\<rparr>,
                          Imshow ''Live Feed (Grayscale)'' \<lparr>shape = [1, 2], buffer = [20, 50]\<rparr>,
                          Imshow ''Original Feed'' frame_1x2,
                          Print Recording_stopped_by_user, Release_cap, Release_out,
                          DestroyAllWindows, Print (Total_frames_captured 2)],
                raised = None\<rparr>"
  using stop_key_exits [of "[Frame frame_1x2 (- 1)]" frame_1x2 27 sample_cv2
      "[Frame frame_1x2 (- 1)]"]
  by (simp add: bgr_frame_def frame_1x2_def sample_cv2_def record_cell_def
      record_effects_def cleanup_def)

section \<open>Releases\<close>

lemma record_cell_releases:
  assumes "record_cell L True ticks = Some r"
  shows "raised r \<noteq> Some KeyboardInterrupt
    \<and> (raised r = None \<longrightarrow> Release_cap \<in> set (events r) \<and> Release_out \<in> set (events r))"
  using assms
  by (auto simp: record_cell_def cleanup_def split: prod.splits control.splits if_splits)

lemma camera_feed_cell_releases:
  assumes "camera_feed_cell True ticks = Some r" and "raised r = None"
  shows "Release_cap \<in> set (events r)"
  using assms
  by (auto simp: camera_feed_cell_def split: prod.splits control.splits)

lemma record_iteration_colour:
  assumes "colour_tick t"
  shows "fst (record_iteration L n t) \<noteq> Raise e \<or> e = KeyboardInterrupt"
proof (cases t)
  case (Frame frame key)
  with assms record_effects_bgr [of frame L "n + 1"] show ?thesis
    by (auto split: if_splits)
next
  case (Interrupt_after frame k)
  with assms record_effects_bgr [of frame L "n + 1"] show ?thesis
    by (auto split: if_splits)
qed simp_all

lemma record_iteration_stops:
  assumes "colour_tick t" and "\<not> continuing 27 t"
  shows "fst (record_iteration L n t) \<noteq> Continue"
proof (cases t)
  case (Frame frame key)
  with assms record_effects_bgr [of frame L "n + 1"] show ?thesis by auto
next
  case (Interrupt_after frame k)
  with assms record_effects_bgr [of frame L "n + 1"] show ?thesis by auto
qed simp_all

lemma record_loop_colour:
  assumes "\<forall>t \<in> set ticks. colour_tick t"
  shows "fst (record_loop L n ticks) \<noteq> Raise e \<or> e = KeyboardInterrupt"
  using assms
proof (induction ticks arbitrary: n)
  case Nil
  then show ?case by simp
next
  case (Cons t ticks)
  obtain c k evs where it: "record_iteration L n t = (c, k, evs)"
    by (cases "record_iteration L n t") auto
  from Cons.prems have "colour_tick t" by simp
  from record_iteration_colour [OF this, of L n e] it
  have c: "c \<noteq> Raise e \<or> e = KeyboardInterrupt" by simp
  from Cons.IH [of k] Cons.prems
  have ih: "fst (record_loop L k ticks) \<noteq> Raise e \<or> e = KeyboardInterrupt" by simp
  from it c ih show ?case
    by (cases c) (auto split: prod.splits)
qed

lemma record_loop_stops:
  assumes "\<forall>t \<in> set ticks. colour_tick t" and "\<exists>t \<in> set ticks. \<not> continuing 27 t"
  shows "fst (record_loop L n ticks) \<noteq> Continue"
  using assms
proof (induction ticks arbitrary: n)
  case Nil
  then show ?case by simp
next
  case (Cons t ticks)
  obtain c k evs where it: "record_iteration L n t = (c, k, evs)"
    by (cases "record_iteration L n t") auto
  show ?case
  proof (cases c)
    case Continue
    with it record_iteration_stops [of t L n] Cons.prems(1)
    have "continuing 27 t" by auto
    with Cons.prems have "\<exists>t \<in> set ticks. \<not> continuing 27 t" by auto
    with Cons.IH [of k] Cons.prems(1)
    have "fst (record_loop L k ticks) \<noteq> Continue" by simp
    with it Continue show ?thesis by (auto split: prod.splits)
  next
    case Break
    with it show ?thesis by simp
  next
    case (Raise x)
    with it show ?thesis by simp
  qed
qed

text \<open>
  The record cell on colour frames: a run in which some iteration meets a closed camera,
  a failed pull, the stop key or Ctrl-C comes to its end, no exception leaves the cell,
  and the camera and the output stream are released.
\<close>

theorem record_cell_ends_and_releases:
  assumes "\<forall>t \<in> set ticks. colour_tick t" and "\<exists>t \<in> set ticks. \<not> continuing 27 t"
  shows "\<exists>r. record_cell L True ticks = Some r \<and> raised r = None
           \<and> Release_cap \<in> set (events r) \<and> Release_out \<in> set (events r)"
proof -
  obtain c n evs where lp: "record_loop L 0 ticks = (c, n, evs)"
    by (cases "record_loop L 0 ticks") auto
  from record_loop_stops [OF assms, of L 0] lp have nc: "c \<noteq> Continue" by simp
  show ?thesis
  proof (cases c)
    case Continue
    with nc show ?thesis by simp
  next
    case Break
    with lp show ?thesis by (simp add: record_cell_def cleanup_def)
  next
    case (Raise e)
    with record_loop_colour [OF assms(1), of L 0 e] lp have "e = KeyboardInterrupt" by simp
    with Raise lp show ?thesis by (simp add: record_cell_def cleanup_def)
  qed
qed

theorem record_cell_ends_and_releases_witness:
  "colour_tick (Frame frame_1x2 (- 1)) \<and> colour_tick (Interrupt_after frame_1x2 2)
   \<and> \<not> continuing 27 (Interrupt_after frame_1x2 2)
   \<and> record_cell sample_cv2 True [Frame frame_1x2 (- 1), Interrupt_after frame_1x2 2]
       = Some \<lparr>events = [Write \<lparr>shape = [1, 2, 3], buffer = [20, 20, 20, 50, 50, 50]\<rparr>,
                          Imshow ''Live Feed (Grayscale)'' \<lparr>shape = [1, 2], buffer = [20, 50]\<rparr>,
                          Imshow ''Original Feed'' frame_1x2,
                          Write \<lparr>shape = [1, 2, 3], buffer = [20, 20, 20, 50, 50, 50]\<rparr>,
                          Imshow ''Live Feed (Grayscale)'' \<lparr>shape = [1, 2], buffer = [20, 50]\<rparr>,
                          Print Recording_interrupted_by_user, Release_cap, Release_out,
                          DestroyAllWindows, Print (Total_frames_captured 2)],
                raised = None\<rparr>"
  using record_cell_ends_and_releases
    [of "[Frame frame_1x2 (- 1), Interrupt_after frame_1x2 2]" sample_cv2]
  by (simp add: bgr_frame_def frame_1x2_def sample_cv2_def record_cell_def
      record_effects_def cleanup_def numeral_2_eq_2)

text \<open>
  C4: a run of the camera-feed cell in which Ctrl-C arrives in the second iteration ends
  with \<open>KeyboardInterrupt\<close> and without \<open>cap.release()\<close>; so does the overlay cell.
  The record cell catches the interrupt and releases the camera and the output stream.
\<close>

theorem camera_feed_interrupt_not_released:
  "camera_feed_cell True [Frame frame_1x2 (- 1), Interrupt_after frame_1x2 1]
     = Some \<lparr>events = [Imshow ''Camera Feed - HD Resolution'' frame_1x2,
                        Imshow ''Camera Feed - HD Resolution'' frame_1x2],
              raised = Some KeyboardInterrupt\<rparr>
   \<and> overlay_cell sample_cv2 [Frame frame_1x2 (- 1), Interrupt_after frame_1x2 1]
     = Some \<lparr>events = [Imshow ''Camera Frame'' frame_1x2, Imshow ''Camera Frame'' frame_1x2],
              raised = Some KeyboardInterrupt\<rparr>
   \<and> record_cell sample_cv2 True [Interrupt_after frame_1x2 0]
     = Some \<lparr>events = [Print Recording_interrupted_by_user, Release_cap, Release_out,
                        DestroyAllWindows, Print (Total_frames_captured 1)],
              raised = None\<rparr>"
  by (simp add: camera_feed_cell_def overlay_cell_def overlay_frame_def sample_cv2_def
      record_cell_def cleanup_def ord_q_def)

end
